theory Spec2Isabelle
  imports Complex_Main "HOL-Library.Log_Nat"
begin

section \<open>JSON values and their serialised form\<close>

text \<open>
  The batcher of \<^verbatim>\<open>src/batcher.js\<close> never looks inside a product: it only calls
  \<^verbatim>\<open>JSON.stringify\<close> on it and on arrays of products, and measures the text
  with \<^verbatim>\<open>Buffer.byteLength(json, "utf8")\<close>. A product is modelled as a JSON value.
  A string holds the UTF-8 bytes of the JavaScript string (a \<open>char\<close> is a byte), so
  that the length of the serialised text is the number of bytes
  \<^verbatim>\<open>Buffer.byteLength\<close> counts. Numbers are the integer-valued ones that JavaScript
  prints in plain decimal notation. Values for which \<^verbatim>\<open>JSON.stringify\<close> gives
  \<^verbatim>\<open>undefined\<close> (functions, symbols, \<^verbatim>\<open>undefined\<close> itself) and objects with a
  \<^verbatim>\<open>toJSON\<close> method are no JSON values and have no counterpart here.
\<close>

datatype json =
    JNull
  | JBool bool
  | JNum int
  | JStr string
  | JArr "json list"
  | JObj "(string \<times> json) list"

definition hexdigit :: "nat \<Rightarrow> char" where
  "hexdigit n = ''0123456789abcdef'' ! (n mod 16)"

text \<open>
  The escapes of \<^verbatim>\<open>QuoteJSONString\<close>: the two-character escapes for backspace, tab,
  newline, form feed, carriage return, the double quote (\<open>0x22\<close>) and the backslash
  (\<open>0x5C\<close>), \<^verbatim>\<open>\u00XX\<close> for the other control characters, and every other byte
  unchanged.
\<close>

definition escape_char :: "char \<Rightarrow> string" where
  "escape_char c =
     (if c = CHR 0x08 then [CHR 0x5C, CHR ''b'']
      else if c = CHR 0x09 then [CHR 0x5C, CHR ''t'']
      else if c = CHR 0x0A then [CHR 0x5C, CHR ''n'']
      else if c = CHR 0x0C then [CHR 0x5C, CHR ''f'']
      else if c = CHR 0x0D then [CHR 0x5C, CHR ''r'']
      else if c = CHR 0x22 then [CHR 0x5C, CHR 0x22]
      else if c = CHR 0x5C then [CHR 0x5C, CHR 0x5C]
      else if (of_char c :: nat) < 32
        then [CHR 0x5C, CHR ''u'', CHR ''0'', CHR ''0'',
              hexdigit (of_char c div 16), hexdigit (of_char c)]
      else [c])"

definition QuoteJSONString :: "string \<Rightarrow> string" where
  "QuoteJSONString s = CHR 0x22 # concat (map escape_char s) @ [CHR 0x22]"

fun digits :: "nat \<Rightarrow> string" where
  "digits n =
     (if n < 10 then [char_of (48 + n)]
      else digits (n div 10) @ [char_of (48 + n mod 10)])"

declare digits.simps [simp del]

definition NumberToString :: "int \<Rightarrow> string" where
  "NumberToString i = (if i < 0 then CHR ''-'' # digits (nat (- i)) else digits (nat i))"

text \<open>The elements of an array, or the members of an object, separated by commas.\<close>

fun join :: "string list \<Rightarrow> string" where
  "join [] = []"
| "join [x] = x"
| "join (x # y # ys) = x @ '','' @ join (y # ys)"

fun JSON_stringify :: "json \<Rightarrow> string" where
  "JSON_stringify JNull = ''null''"
| "JSON_stringify (JBool b) = (if b then ''true'' else ''false'')"
| "JSON_stringify (JNum i) = NumberToString i"
| "JSON_stringify (JStr s) = QuoteJSONString s"
| "JSON_stringify (JArr xs) = ''['' @ join (map JSON_stringify xs) @ '']''"
| "JSON_stringify (JObj kvs) =
     ''{'' @ join (map (\<lambda>(k, v). QuoteJSONString k @ '':'' @ JSON_stringify v) kvs) @ ''}''"

text \<open>\<^verbatim>\<open>Buffer.byteLength(json, "utf8")\<close> on a text held as its UTF-8 bytes.\<close>

definition byteLength :: "string \<Rightarrow> nat" where
  "byteLength json = length json"

section \<open>Doubles\<close>

text \<open>
  A JavaScript number is an IEEE 754 double: a real of the form \<open>m * 2^k\<close> with an
  integer \<open>m\<close> below \<open>2^53\<close> in magnitude and \<open>k\<close> not below \<open>-1074\<close>. A
  literal and the result of a product are the double nearest to the exact value, the one
  with the even \<open>m\<close> at a tie. \<open>binade x\<close> is the exponent \<open>e\<close> with
  \<open>2^e \<le> x < 2^(e+1)\<close> for a positive \<open>x\<close>; the doubles around \<open>x\<close> are then
  \<open>2^(e-52)\<close> apart. Overflow to \<^verbatim>\<open>Infinity\<close> is not modelled: the cap is taken
  finite.
\<close>

definition pow2 :: "int \<Rightarrow> real" where
  "pow2 k = (if 0 \<le> k then 2 ^ nat k else 1 / 2 ^ nat (- k))"

definition binade :: "real \<Rightarrow> int" where
  "binade x =
     (if 1 \<le> x then bitlen \<lfloor>x\<rfloor> - 1
      else let j = bitlen \<lfloor>1 / x\<rfloor> - 1
           in if x * 2 ^ nat j = 1 then - j else - j - 1)"

definition roundTiesToEven :: "real \<Rightarrow> int" where
  "roundTiesToEven q =
     (let f = \<lfloor>q\<rfloor>; r = q - of_int f
      in if r < 1 / 2 then f
         else if 1 / 2 < r then f + 1
         else if even f then f else f + 1)"

definition to_double :: "real \<Rightarrow> real" where
  "to_double x =
     (if x = 0 then 0
      else let a = \<bar>x\<bar>;
               k = max (binade a - 52) (- 1074);
               m = roundTiesToEven (a / pow2 k)
           in sgn x * (of_int m * pow2 k))"

text \<open>The product \<^verbatim>\<open>x * y\<close> of two doubles.\<close>

definition double_times :: "real \<Rightarrow> real \<Rightarrow> real" where
  "double_times x y = to_double (x * y)"

section \<open>The batcher\<close>

text \<open>
  \<^verbatim>\<open>createBatcher(maxSizeMB, externalService)\<close> returns three closures over seven
  variables. The variables are the first seven fields of the state below. The state also
  holds what the closures do to the world: \<open>calls\<close> lists, oldest first, the arrays
  whose JSON text was passed to \<^verbatim>\<open>externalService.call\<close> (every invocation, also one
  that raised), and \<open>console\<close> lists what \<^verbatim>\<open>console.log\<close> printed.

  Sizes and counters are JavaScript numbers that start at \<open>0\<close> and only grow by
  whole amounts; they are natural numbers here (exact in a double below \<open>2^53\<close>).
  \<open>maxSizeMB\<close> is a double, held as the real number it is. Comparisons of doubles are
  exact. \<^verbatim>\<open>maxSizeMB * ONE_MEGA_BYTE\<close> is exact in a double (a power of two), and
  \<^verbatim>\<open>maxSizeBytes * 0.95\<close> is the rounded product of the cap and the double nearest to
  \<open>0.95\<close>. The numbers of the progress lines and of the summary are those of the reals,
  as they are before \<^verbatim>\<open>toFixed\<close> formats them.
\<close>

datatype line =
    SendingBatch nat nat real
  | Processing nat
  | Progress nat nat real
  | Completed nat
  | Rule
  | Title
  | TotalProductsProcessed nat
  | TotalBatchesSent nat
  | TotalDataProcessed real
  | AverageBatchSize real
  | AverageProductsPerBatch int
  | OverallUtilization real
  | FullBatches nat real real
  | PartialBatches int real
  | NoBatchesWereSent

record state =
  currentBatch :: "json list"
  currentBatchSize :: nat
  totalProductsProcessed :: nat
  totalBatchesSent :: nat
  totalSizeProcessed :: nat
  totalFullBatchesSize :: nat
  fullBatchCount :: nat
  calls :: "json list list"
  console :: "line list"

definition init :: state where
  "init = \<lparr>currentBatch = [], currentBatchSize = 0, totalProductsProcessed = 0,
           totalBatchesSent = 0, totalSizeProcessed = 0, totalFullBatchesSize = 0,
           fullBatchCount = 0, calls = [], console = []\<rparr>"

text \<open>
  The external service is known by one thing: whether \<^verbatim>\<open>call(batchJSON)\<close> returns or
  raises. It may depend on the texts of the earlier calls and on the text of this one.
\<close>

type_synonym service = "string list \<Rightarrow> string \<Rightarrow> bool"

datatype outcome = Returned | Raised

definition ONE_MEGA_BYTE :: real where
  "ONE_MEGA_BYTE = 1048576"

definition maxSizeBytes :: "real \<Rightarrow> real" where
  "maxSizeBytes maxSizeMB = maxSizeMB * ONE_MEGA_BYTE"

text \<open>The text handed to the service for a batch: \<^verbatim>\<open>JSON.stringify(currentBatch)\<close>.\<close>

definition payload :: "json list \<Rightarrow> string" where
  "payload products = JSON_stringify (JArr products)"

definition calculateBatchSize :: "json list \<Rightarrow> nat" where
  "calculateBatchSize products =
     (if length products = 0 then 2
      else let json = JSON_stringify (JArr products) in byteLength json)"

definition estimateProductSize :: "state \<Rightarrow> json \<Rightarrow> nat" where
  "estimateProductSize s product =
     (let json = JSON_stringify product;
          productSize = byteLength json;
          separator = (if length (currentBatch s) > 0 then 1 else 0)
      in productSize + separator)"

definition sendBatch :: "real \<Rightarrow> service \<Rightarrow> state \<Rightarrow> outcome \<times> state" where
  "sendBatch maxSizeMB externalService s =
     (if length (currentBatch s) = 0 then (Returned, s)
      else
        let batchJSON = JSON_stringify (JArr (currentBatch s));
            batchSize = byteLength batchJSON;
            s1 = s\<lparr>totalProductsProcessed := totalProductsProcessed s + length (currentBatch s),
                   totalBatchesSent := totalBatchesSent s + 1,
                   totalSizeProcessed := totalSizeProcessed s + batchSize\<rparr>;
            s2 = (if real batchSize > double_times (maxSizeBytes maxSizeMB) (to_double 0.95)
                  then s1\<lparr>totalFullBatchesSize := totalFullBatchesSize s1 + batchSize,
                          fullBatchCount := fullBatchCount s1 + 1\<rparr>
                  else s1);
            s3 = s2\<lparr>console := console s2 @
                   [SendingBatch (totalBatchesSent s2) (length (currentBatch s2))
                      (real batchSize / ONE_MEGA_BYTE)]\<rparr>;
            s4 = s3\<lparr>calls := calls s3 @ [currentBatch s3]\<rparr>
        in if externalService (map payload (calls s3)) batchJSON then (Raised, s4)
           else (Returned, s4\<lparr>currentBatch := [], currentBatchSize := 0\<rparr>))"

definition addProduct :: "real \<Rightarrow> service \<Rightarrow> json \<Rightarrow> state \<Rightarrow> outcome \<times> state" where
  "addProduct maxSizeMB externalService product s =
     (let estimatedAddition = estimateProductSize s product;
          estimatedNewSize = currentBatchSize s + estimatedAddition
      in if real estimatedNewSize > maxSizeBytes maxSizeMB \<and> length (currentBatch s) > 0
         then
           (case sendBatch maxSizeMB externalService s of
              (Raised, s') \<Rightarrow> (Raised, s')
            | (Returned, s') \<Rightarrow>
                (Returned, s'\<lparr>currentBatch := [product],
                              currentBatchSize := calculateBatchSize [product]\<rparr>))
         else
           let s1 = s\<lparr>currentBatch := currentBatch s @ [product]\<rparr>
           in if length (currentBatch s1) \<le> 3 \<or> length (currentBatch s1) mod 100 = 0
              then (Returned, s1\<lparr>currentBatchSize := calculateBatchSize (currentBatch s1)\<rparr>)
              else (Returned, s1\<lparr>currentBatchSize := estimatedNewSize\<rparr>))"

text \<open>
  The \<^verbatim>\<open>for (const product of products)\<close> loop of \<^verbatim>\<open>addProducts\<close>, with its counter
  \<open>processedCount\<close>; an exception of \<^verbatim>\<open>addProduct\<close> leaves the loop.
\<close>

fun addProducts_loop ::
  "real \<Rightarrow> service \<Rightarrow> nat \<Rightarrow> json list \<Rightarrow> nat \<Rightarrow> state \<Rightarrow> outcome \<times> state" where
  "addProducts_loop maxSizeMB externalService totalProducts [] processedCount s = (Returned, s)"
| "addProducts_loop maxSizeMB externalService totalProducts (product # rest) processedCount s =
     (case addProduct maxSizeMB externalService product s of
        (Raised, s') \<Rightarrow> (Raised, s')
      | (Returned, s') \<Rightarrow>
          let processedCount' = processedCount + 1;
              s'' = (if processedCount' mod 5000 = 0
                     then s'\<lparr>console := console s' @
                            [Progress processedCount' totalProducts
                               (real processedCount' / real totalProducts * 100)]\<rparr>
                     else s')
          in addProducts_loop maxSizeMB externalService totalProducts rest processedCount' s'')"

definition addProducts :: "real \<Rightarrow> service \<Rightarrow> json list \<Rightarrow> state \<Rightarrow> outcome \<times> state" where
  "addProducts maxSizeMB externalService products s =
     (let totalProducts = length products;
          s0 = s\<lparr>console := console s @ [Processing totalProducts]\<rparr>
      in case addProducts_loop maxSizeMB externalService totalProducts products 0 s0 of
           (Raised, s') \<Rightarrow> (Raised, s')
         | (Returned, s') \<Rightarrow> (Returned, s'\<lparr>console := console s' @ [Completed totalProducts]\<rparr>))"

text \<open>
  The lines of \<^verbatim>\<open>printSummary\<close>, each with the numbers it formats (before
  \<^verbatim>\<open>toFixed\<close> and \<^verbatim>\<open>toLocaleString\<close>); \<^verbatim>\<open>Math.round\<close> is \<open>\<lfloor>x + 1/2\<rfloor>\<close>.
\<close>

definition summary :: "real \<Rightarrow> state \<Rightarrow> line list" where
  "summary maxSizeMB s =
     [Rule, Title, Rule,
      TotalProductsProcessed (totalProductsProcessed s),
      TotalBatchesSent (totalBatchesSent s),
      TotalDataProcessed (real (totalSizeProcessed s) / ONE_MEGA_BYTE)] @
     (if totalBatchesSent s > 0 then
        (let avgBatchSize = real (totalSizeProcessed s) / real (totalBatchesSent s) / ONE_MEGA_BYTE;
             overallUtilization = (avgBatchSize / maxSizeMB) * 100
         in [AverageBatchSize avgBatchSize,
             AverageProductsPerBatch
               \<lfloor>real (totalProductsProcessed s) / real (totalBatchesSent s) + 1 / 2\<rfloor>,
             OverallUtilization overallUtilization]) @
        (if fullBatchCount s > 0 then
           (let fullBatchAvg = real (totalFullBatchesSize s) / real (fullBatchCount s) / ONE_MEGA_BYTE;
                fullBatchUtilization = (fullBatchAvg / maxSizeMB) * 100
            in [FullBatches (fullBatchCount s) fullBatchAvg fullBatchUtilization])
         else []) @
        (let partialBatches = int (totalBatchesSent s) - int (fullBatchCount s)
         in if partialBatches > 0 then
              (let partialSize =
                     (real (totalSizeProcessed s) - real (totalFullBatchesSize s)) / ONE_MEGA_BYTE
               in [PartialBatches partialBatches partialSize])
            else [])
      else [NoBatchesWereSent]) @
     [Rule]"

definition printSummary :: "real \<Rightarrow> state \<Rightarrow> state" where
  "printSummary maxSizeMB s = s\<lparr>console := console s @ summary maxSizeMB s\<rparr>"

definition flush :: "real \<Rightarrow> service \<Rightarrow> state \<Rightarrow> outcome \<times> state" where
  "flush maxSizeMB externalService s =
     (case sendBatch maxSizeMB externalService s of
        (Raised, s') \<Rightarrow> (Raised, s')
      | (Returned, s') \<Rightarrow> (Returned, printSummary maxSizeMB s'))"

subsection \<open>Callers\<close>

text \<open>
  A caller invokes the three closures in any order. \<open>run\<close> is a caller that catches
  what a call raises and carries on with the next call (as the \<^verbatim>\<open>try\<close> ...
  \<^verbatim>\<open>finally { batcher.flush() }\<close> of the entry point does); \<open>run_all\<close> is a caller
  that stops at the first exception.
\<close>

datatype call = AddProduct json | AddProducts "json list" | Flush

fun exec :: "real \<Rightarrow> service \<Rightarrow> call \<Rightarrow> state \<Rightarrow> outcome \<times> state" where
  "exec maxSizeMB externalService (AddProduct product) s =
     addProduct maxSizeMB externalService product s"
| "exec maxSizeMB externalService (AddProducts products) s =
     addProducts maxSizeMB externalService products s"
| "exec maxSizeMB externalService Flush s = flush maxSizeMB externalService s"

fun run :: "real \<Rightarrow> service \<Rightarrow> call list \<Rightarrow> state \<Rightarrow> state" where
  "run maxSizeMB externalService [] s = s"
| "run maxSizeMB externalService (c # cs) s =
     run maxSizeMB externalService cs (snd (exec maxSizeMB externalService c s))"

fun run_all :: "real \<Rightarrow> service \<Rightarrow> call list \<Rightarrow> state \<Rightarrow> outcome \<times> state" where
  "run_all maxSizeMB externalService [] s = (Returned, s)"
| "run_all maxSizeMB externalService (c # cs) s =
     (case exec maxSizeMB externalService c s of
        (Raised, s') \<Rightarrow> (Raised, s')
      | (Returned, s') \<Rightarrow> run_all maxSizeMB externalService cs s')"

text \<open>The products a list of calls adds, in order.\<close>

fun added :: "call list \<Rightarrow> json list" where
  "added [] = []"
| "added (AddProduct product # cs) = product # added cs"
| "added (AddProducts products # cs) = products @ added cs"
| "added (Flush # cs) = added cs"

text \<open>
  A service that never raises, one that always does, and one that raises at its first
  call only.
\<close>

definition reliable :: service where
  "reliable history batchJSON = False"

definition failing :: service where
  "failing history batchJSON = True"

definition once :: service where
  "once history batchJSON = (history = [])"

subsection \<open>Parts of the source functions, named\<close>

text \<open>
  The bookkeeping of \<^verbatim>\<open>sendBatch\<close> up to and including the call of the service
  (statistics, progress line, the call itself), without the reset that follows the call.
\<close>

definition accounted :: "real \<Rightarrow> state \<Rightarrow> state" where
  "accounted maxSizeMB s =
     (let batchSize = byteLength (payload (currentBatch s));
          full = (real batchSize > double_times (maxSizeBytes maxSizeMB) (to_double 0.95))
      in s\<lparr>totalProductsProcessed := totalProductsProcessed s + length (currentBatch s),
            totalBatchesSent := totalBatchesSent s + 1,
            totalSizeProcessed := totalSizeProcessed s + batchSize,
            totalFullBatchesSize := totalFullBatchesSize s + (if full then batchSize else 0),
            fullBatchCount := fullBatchCount s + (if full then 1 else 0),
            console := console s @
              [SendingBatch (totalBatchesSent s + 1) (length (currentBatch s))
                 (real batchSize / ONE_MEGA_BYTE)],
            calls := calls s @ [currentBatch s]\<rparr>)"

text \<open>The test of \<^verbatim>\<open>addProduct\<close> that sends the current batch first.\<close>

definition overflows :: "real \<Rightarrow> json \<Rightarrow> state \<Rightarrow> bool" where
  "overflows maxSizeMB product s \<longleftrightarrow>
     real (currentBatchSize s + estimateProductSize s product) > maxSizeBytes maxSizeMB \<and>
     length (currentBatch s) > 0"

text \<open>The other branch of \<^verbatim>\<open>addProduct\<close>: the product joins the current batch.\<close>

definition appended :: "json \<Rightarrow> state \<Rightarrow> state" where
  "appended product s =
     s\<lparr>currentBatch := currentBatch s @ [product],
       currentBatchSize :=
         (if length (currentBatch s) + 1 \<le> 3 \<or> (length (currentBatch s) + 1) mod 100 = 0
          then byteLength (payload (currentBatch s @ [product]))
          else currentBatchSize s + estimateProductSize s product)\<rparr>"

subsection \<open>Invariants\<close>

text \<open>The tracked size is \<open>0\<close> for an empty batch and the exact size otherwise.\<close>

definition size_inv :: "state \<Rightarrow> bool" where
  "size_inv s \<longleftrightarrow>
     currentBatchSize s =
       (if currentBatch s = [] then 0 else byteLength (payload (currentBatch s)))"

definition within_cap :: "real \<Rightarrow> json list \<Rightarrow> bool" where
  "within_cap maxSizeMB b \<longleftrightarrow>
     (1 < length b \<longrightarrow> real (byteLength (payload b)) \<le> maxSizeBytes maxSizeMB)"

definition cap_inv :: "real \<Rightarrow> state \<Rightarrow> bool" where
  "cap_inv maxSizeMB s \<longleftrightarrow>
     size_inv s \<and> within_cap maxSizeMB (currentBatch s) \<and>
     (\<forall>b \<in> set (calls s). b \<noteq> [] \<and> within_cap maxSizeMB b)"

definition stats_inv :: "state \<Rightarrow> bool" where
  "stats_inv s \<longleftrightarrow>
     fullBatchCount s \<le> totalBatchesSent s \<and>
     totalFullBatchesSize s \<le> totalSizeProcessed s \<and>
     totalProductsProcessed s = sum_list (map length (calls s))"

text \<open>Every product the batcher holds or has handed over, oldest first.\<close>

definition emitted :: "state \<Rightarrow> json list" where
  "emitted s = concat (calls s) @ currentBatch s"

subsection \<open>Sample inputs\<close>

text \<open>Two products of the unit tests, and the state after the first one was added.\<close>

definition product1 :: json where
  "product1 = JObj [(''id'', JStr ''1''), (''title'', JStr ''Product 1''),
                    (''description'', JStr ''Description 1'')]"

definition product2 :: json where
  "product2 = JObj [(''id'', JStr ''2''), (''title'', JStr ''Product 2''),
                    (''description'', JStr ''Description 2'')]"

definition pending1 :: state where
  "pending1 = snd (addProduct 5 reliable product1 init)"

text \<open>
  A cap of ten bytes (\<open>10 / 2^20\<close> megabytes is a double), a string whose text takes
  exactly ten bytes and one whose text takes twelve, and the state with three products
  pending.
\<close>

definition tight :: real where
  "tight = 10 / 1048576"

definition snug :: json where
  "snug = JStr ''12345678''"

definition bulky :: json where
  "bulky = JStr ''1234567890''"

definition pending3 :: state where
  "pending3 = run 5 reliable [AddProducts [product1, product2, product1]] init"



section \<open>Rounding to a double\<close>

text \<open>
  \<open>binade\<close> finds the power of two at or below a positive real, and \<open>to_double\<close>
  gives a multiple of the spacing of the doubles there, no further from the real than
  half that spacing.
\<close>

lemma pow2_pos: "0 < pow2 k"
  by (simp add: pow2_def)

lemma pow2_Suc: "pow2 (k + 1) = 2 * pow2 k"
proof (cases "0 \<le> k")
  case True
  then show ?thesis by (simp add: pow2_def nat_add_distrib)
next
  case False
  then have "nat (- k) = Suc (nat (- (k + 1)))" by simp
  with False show ?thesis by (auto simp: pow2_def)
qed

lemma floor_pow2_bounds:
  fixes y :: real
  assumes "1 \<le> y"
  shows "2 ^ nat (bitlen \<lfloor>y\<rfloor> - 1) \<le> y \<and> y < 2 * 2 ^ nat (bitlen \<lfloor>y\<rfloor> - 1)"
proof -
  let ?n = "\<lfloor>y\<rfloor>"
  let ?k = "nat (bitlen ?n - 1)"
  from assms have n: "0 < ?n" by simp
  then have "1 \<le> bitlen ?n" by (simp add: bitlen_alt_def)
  then have k: "nat (bitlen ?n) = Suc ?k" by simp
  from bitlen_bounds [OF n] k have lo: "2 ^ ?k \<le> ?n" and hi: "?n + 1 \<le> 2 * 2 ^ ?k"
    by simp_all
  have "(2::real) ^ ?k = real_of_int (2 ^ ?k)" by simp
  also from lo have "\<dots> \<le> real_of_int ?n" by (simp only: of_int_le_iff)
  also have "\<dots> \<le> y" by simp
  finally have 1: "2 ^ ?k \<le> y" .
  have "y < real_of_int (?n + 1)" by simp
  also from hi have "\<dots> \<le> real_of_int (2 * 2 ^ ?k)" by (simp only: of_int_le_iff)
  also have "\<dots> = 2 * 2 ^ ?k" by simp
  finally have 2: "y < 2 * 2 ^ ?k" .
  from 1 2 show ?thesis by simp
qed

lemma binade_bounds:
  assumes "0 < x"
  shows "pow2 (binade x) \<le> x \<and> x < pow2 (binade x + 1)"
proof (cases "1 \<le> x")
  case True
  then have "0 < \<lfloor>x\<rfloor>" by simp
  then have b: "0 \<le> bitlen \<lfloor>x\<rfloor> - 1" by (simp add: bitlen_alt_def)
  from True have e: "binade x = bitlen \<lfloor>x\<rfloor> - 1" by (simp add: binade_def)
  have "pow2 (binade x + 1) = 2 * pow2 (binade x)" by (rule pow2_Suc)
  with floor_pow2_bounds [OF True] b e show ?thesis by (simp add: pow2_def)
next
  case False
  let ?j = "bitlen \<lfloor>1 / x\<rfloor> - 1"
  from False assms have y: "1 \<le> 1 / x" by simp
  then have "0 < \<lfloor>1 / x\<rfloor>" by simp
  then have b: "0 \<le> ?j" by (simp add: bitlen_alt_def)
  from floor_pow2_bounds [OF y] have "2 ^ nat ?j \<le> 1 / x" and "1 / x < 2 * 2 ^ nat ?j"
    by simp_all
  with assms have le: "x * 2 ^ nat ?j \<le> 1" and gt: "1 < x * (2 * 2 ^ nat ?j)"
    by (simp_all add: field_simps)
  have up: "pow2 (binade x + 1) = 2 * pow2 (binade x)" by (rule pow2_Suc)
  show ?thesis
  proof (cases "x * 2 ^ nat ?j = 1")
    case True
    with False have e: "binade x = - ?j" by (simp add: binade_def Let_def)
    have "pow2 (- ?j) * 2 ^ nat ?j = 1" using b by (simp add: pow2_def)
    with True have "x * 2 ^ nat ?j = pow2 (- ?j) * 2 ^ nat ?j" by simp
    then have "x = pow2 (- ?j)" by simp
    with assms e up show ?thesis by simp
  next
    case neq: False
    with False have e: "binade x = - ?j - 1" by (simp add: binade_def Let_def)
    have "pow2 (- ?j - 1 + 1) = 2 * pow2 (- ?j - 1)" by (rule pow2_Suc)
    moreover have "pow2 (- ?j) * 2 ^ nat ?j = 1" using b by (simp add: pow2_def)
    ultimately have half: "pow2 (- ?j - 1) * (2 * 2 ^ nat ?j) = 1" by simp
    have pos: "0 < pow2 (- ?j - 1)" by (rule pow2_pos)
    from half gt have "pow2 (- ?j - 1) * (2 * 2 ^ nat ?j) < x * (2 * 2 ^ nat ?j)" by simp
    then have 1: "pow2 (- ?j - 1) < x" by simp
    from le neq have "x * 2 ^ nat ?j < 1" by simp
    also from half have "1 = (2 * pow2 (- ?j - 1)) * 2 ^ nat ?j" by simp
    finally have 2: "x < 2 * pow2 (- ?j - 1)" by simp
    from 1 2 e up show ?thesis by simp
  qed
qed

lemma roundTiesToEven_near: "\<bar>real_of_int (roundTiesToEven q) - q\<bar> \<le> 1 / 2"
  unfolding roundTiesToEven_def Let_def by (auto; linarith)

lemma to_double_near:
  assumes "x \<noteq> 0"
  shows "\<bar>to_double x - x\<bar> \<le> pow2 (max (binade \<bar>x\<bar> - 52) (- 1074)) / 2"
proof -
  let ?k = "max (binade \<bar>x\<bar> - 52) (- 1074)"
  let ?m = "roundTiesToEven (\<bar>x\<bar> / pow2 ?k)"
  have p: "0 < pow2 ?k" by (rule pow2_pos)
  have t: "to_double x = sgn x * (of_int ?m * pow2 ?k)"
    using assms by (simp add: to_double_def Let_def)
  have "x = sgn x * (\<bar>x\<bar> / pow2 ?k * pow2 ?k)" using p by (simp add: sgn_if)
  with t have "to_double x - x = sgn x * ((of_int ?m - \<bar>x\<bar> / pow2 ?k) * pow2 ?k)"
    by (simp add: algebra_simps)
  then have "\<bar>to_double x - x\<bar> = \<bar>of_int ?m - \<bar>x\<bar> / pow2 ?k\<bar> * pow2 ?k"
    using assms p by (simp add: abs_mult sgn_if)
  also have "\<dots> \<le> 1 / 2 * pow2 ?k"
    using roundTiesToEven_near [of "\<bar>x\<bar> / pow2 ?k"] p by (intro mult_right_mono) simp_all
  finally show ?thesis by simp
qed

lemma to_double_literals:
  "to_double 0.95 = 4278419646001971 / 4503599627370496"
  "to_double 0.1 = 3602879701896397 / 36028797018963968"
  "to_double 0.001 = 1152921504606847 / 1152921504606846976"
  "to_double 5242880 = 5242880"
  by code_simp+

section \<open>Serialised sizes\<close>

lemma length_join: "length (join xs) = sum_list (map length xs) + (length xs - 1)"
  by (induction xs rule: join.induct) auto

lemma join_snoc: "xs \<noteq> [] \<Longrightarrow> join (xs @ [x]) = join xs @ '','' @ x"
  by (induction xs rule: join.induct) auto

lemma payload_single: "byteLength (payload [p]) = byteLength (JSON_stringify p) + 2"
  by (simp add: payload_def byteLength_def)

text \<open>
  The text of an element does not depend on its place in the array, so a further element
  costs its own text and one comma.
\<close>

lemma payload_snoc:
  "ps \<noteq> [] \<Longrightarrow>
   byteLength (payload (ps @ [p])) = byteLength (payload ps) + byteLength (JSON_stringify p) + 1"
  by (simp add: payload_def byteLength_def join_snoc)

lemma digits_nonempty: "digits n \<noteq> []"
  by (subst digits.simps) simp

lemma JSON_stringify_nonempty: "JSON_stringify j \<noteq> []"
  by (cases j) (simp_all add: NumberToString_def QuoteJSONString_def digits_nonempty)

lemma payload_longer_than_brackets:
  assumes "ps \<noteq> []"
  shows "2 < length (payload ps)"
proof -
  from assms obtain q qs where ps: "ps = q # qs" by (cases ps) auto
  have "length (payload ps) = 2 + length (join (map JSON_stringify ps))"
    by (simp add: payload_def)
  moreover have "length (JSON_stringify q) \<le> length (join (map JSON_stringify ps))"
    by (simp add: length_join ps)
  moreover have "0 < length (JSON_stringify q)"
    using JSON_stringify_nonempty by simp
  ultimately show ?thesis by linarith
qed

lemma calculateBatchSize_eq:
  "calculateBatchSize ps = (if ps = [] then 2 else byteLength (payload ps))"
  by (simp add: calculateBatchSize_def payload_def)

lemma estimateProductSize_eq:
  "estimateProductSize s p =
     byteLength (JSON_stringify p) + (if currentBatch s = [] then 0 else 1)"
  by (simp add: estimateProductSize_def)

section \<open>The two basic operations, by cases\<close>

lemma sendBatch_eq:
  "sendBatch M e s =
     (if currentBatch s = [] then (Returned, s)
      else if e (map payload (calls s)) (payload (currentBatch s)) then (Raised, accounted M s)
      else (Returned, (accounted M s)\<lparr>currentBatch := [], currentBatchSize := 0\<rparr>))"
  by (simp add: sendBatch_def accounted_def Let_def payload_def)

lemma accounted_simps [simp]:
  "currentBatch (accounted M s) = currentBatch s"
  "currentBatchSize (accounted M s) = currentBatchSize s"
  "calls (accounted M s) = calls s @ [currentBatch s]"
  "totalProductsProcessed (accounted M s) = totalProductsProcessed s + length (currentBatch s)"
  "totalBatchesSent (accounted M s) = totalBatchesSent s + 1"
  "totalSizeProcessed (accounted M s) = totalSizeProcessed s + byteLength (payload (currentBatch s))"
  "totalFullBatchesSize (accounted M s) =
     totalFullBatchesSize s +
       (if real (byteLength (payload (currentBatch s))) > double_times (maxSizeBytes M) (to_double 0.95)
        then byteLength (payload (currentBatch s)) else 0)"
  "fullBatchCount (accounted M s) =
     fullBatchCount s +
       (if real (byteLength (payload (currentBatch s))) > double_times (maxSizeBytes M) (to_double 0.95) then 1 else 0)"
  "console (accounted M s) =
     console s @ [SendingBatch (totalBatchesSent s + 1) (length (currentBatch s))
                    (real (byteLength (payload (currentBatch s))) / ONE_MEGA_BYTE)]"
  by (simp_all add: accounted_def Let_def)

lemma appended_simps [simp]:
  "currentBatch (appended p s) = currentBatch s @ [p]"
  "calls (appended p s) = calls s"
  "console (appended p s) = console s"
  "totalProductsProcessed (appended p s) = totalProductsProcessed s"
  "totalBatchesSent (appended p s) = totalBatchesSent s"
  "totalSizeProcessed (appended p s) = totalSizeProcessed s"
  "totalFullBatchesSize (appended p s) = totalFullBatchesSize s"
  "fullBatchCount (appended p s) = fullBatchCount s"
  by (simp_all add: appended_def)

lemma addProduct_eq:
  "addProduct M e p s =
     (if overflows M p s then
        (if e (map payload (calls s)) (payload (currentBatch s)) then (Raised, accounted M s)
         else (Returned, (accounted M s)\<lparr>currentBatch := [p],
                            currentBatchSize := byteLength (payload [p])\<rparr>))
      else (Returned, appended p s))"
  by (simp add: addProduct_def sendBatch_eq overflows_def appended_def calculateBatchSize_eq Let_def)

section \<open>Invariants of the two basic operations\<close>

lemma appended_exact:
  assumes "size_inv s"
  shows "currentBatchSize (appended p s) = byteLength (payload (currentBatch s @ [p]))"
proof (cases "currentBatch s = []")
  case True
  then show ?thesis by (simp add: appended_def)
next
  case False
  with assms have "currentBatchSize s + estimateProductSize s p =
      byteLength (payload (currentBatch s @ [p]))"
    by (simp add: size_inv_def estimateProductSize_eq payload_snoc)
  then show ?thesis by (simp add: appended_def)
qed

lemma size_inv_appended: "size_inv s \<Longrightarrow> size_inv (appended p s)"
  using appended_exact [of s p] by (simp add: size_inv_def)

lemma size_inv_sendBatch: "size_inv s \<Longrightarrow> size_inv (snd (sendBatch M e s))"
  by (simp add: sendBatch_eq size_inv_def)

lemma size_inv_addProduct: "size_inv s \<Longrightarrow> size_inv (snd (addProduct M e p s))"
  using size_inv_appended [of s p] by (simp add: addProduct_eq) (simp add: size_inv_def)

lemma within_cap_appended:
  assumes "size_inv s" and "\<not> overflows M p s"
  shows "within_cap M (currentBatch s @ [p])"
proof (cases "currentBatch s = []")
  case True
  then show ?thesis by (simp add: within_cap_def)
next
  case False
  with assms(1) have "currentBatchSize s + estimateProductSize s p =
      byteLength (payload (currentBatch s @ [p]))"
    by (simp add: size_inv_def estimateProductSize_eq payload_snoc)
  with assms(2) False show ?thesis by (simp add: within_cap_def overflows_def)
qed

lemma cap_inv_sendBatch: "cap_inv M s \<Longrightarrow> cap_inv M (snd (sendBatch M e s))"
  by (simp add: sendBatch_eq cap_inv_def size_inv_def) (simp add: within_cap_def)

lemma cap_inv_addProduct:
  assumes "cap_inv M s"
  shows "cap_inv M (snd (addProduct M e p s))"
proof (cases "overflows M p s")
  case True
  then have "currentBatch s \<noteq> []" by (simp add: overflows_def)
  with assms show ?thesis
    by (simp add: addProduct_eq True cap_inv_def size_inv_def) (simp add: within_cap_def)
next
  case False
  from assms have "size_inv s" by (simp add: cap_inv_def)
  then show ?thesis
    using assms within_cap_appended [OF \<open>size_inv s\<close> False] size_inv_appended [of s p]
    by (simp add: addProduct_eq False cap_inv_def)
qed

lemma stats_inv_sendBatch: "stats_inv s \<Longrightarrow> stats_inv (snd (sendBatch M e s))"
  by (simp add: sendBatch_eq stats_inv_def)

lemma stats_inv_addProduct: "stats_inv s \<Longrightarrow> stats_inv (snd (addProduct M e p s))"
  by (simp add: addProduct_eq stats_inv_def)

section \<open>From the basic operations to every call\<close>

lemma loop_preserves:
  assumes add: "\<And>s p. I s \<Longrightarrow> I (snd (addProduct M e p s))"
      and con: "\<And>s c. I s \<Longrightarrow> I (s\<lparr>console := c\<rparr>)"
  shows "I s \<Longrightarrow> I (snd (addProducts_loop M e t ps n s))"
proof (induction ps arbitrary: n s)
  case Nil
  then show ?case by simp
next
  case (Cons p ps)
  obtain r s' where eq: "addProduct M e p s = (r, s')" by (cases "addProduct M e p s")
  from add [OF Cons.prems, of p] eq have s': "I s'" by simp
  show ?case
  proof (cases r)
    case Raised
    with eq s' show ?thesis by simp
  next
    case Returned
    with eq s' show ?thesis by (simp add: Let_def Cons.IH con)
  qed
qed

lemma addProducts_preserves:
  assumes add: "\<And>s p. I s \<Longrightarrow> I (snd (addProduct M e p s))"
      and con: "\<And>s c. I s \<Longrightarrow> I (s\<lparr>console := c\<rparr>)"
      and s: "I s"
  shows "I (snd (addProducts M e ps s))"
proof -
  let ?s0 = "s\<lparr>console := console s @ [Processing (length ps)]\<rparr>"
  obtain r s' where eq: "addProducts_loop M e (length ps) ps 0 ?s0 = (r, s')"
    by (cases "addProducts_loop M e (length ps) ps 0 ?s0")
  have "I ?s0" using s by (rule con)
  from loop_preserves [of I M e, OF add con this, of "length ps" ps 0] eq have "I s'" by simp
  then show ?thesis by (cases r) (simp_all add: addProducts_def eq Let_def con)
qed

lemma flush_preserves:
  assumes send: "\<And>s. I s \<Longrightarrow> I (snd (sendBatch M e s))"
      and con: "\<And>s c. I s \<Longrightarrow> I (s\<lparr>console := c\<rparr>)"
      and s: "I s"
  shows "I (snd (flush M e s))"
proof -
  obtain r s' where eq: "sendBatch M e s = (r, s')" by (cases "sendBatch M e s")
  from send [OF s] eq have "I s'" by simp
  then show ?thesis by (cases r) (simp_all add: flush_def eq printSummary_def con)
qed

lemma exec_preserves:
  assumes send: "\<And>s. I s \<Longrightarrow> I (snd (sendBatch M e s))"
      and add: "\<And>s p. I s \<Longrightarrow> I (snd (addProduct M e p s))"
      and con: "\<And>s c. I s \<Longrightarrow> I (s\<lparr>console := c\<rparr>)"
      and s: "I s"
  shows "I (snd (exec M e c s))"
proof (cases c)
  case (AddProduct p)
  then show ?thesis using add [OF s] by simp
next
  case (AddProducts ps)
  then show ?thesis using addProducts_preserves [of I M e, OF add con s] by simp
next
  case Flush
  then show ?thesis using flush_preserves [of I M e, OF send con s] by simp
qed

lemma run_preserves:
  assumes send: "\<And>s. I s \<Longrightarrow> I (snd (sendBatch M e s))"
      and add: "\<And>s p. I s \<Longrightarrow> I (snd (addProduct M e p s))"
      and con: "\<And>s c. I s \<Longrightarrow> I (s\<lparr>console := c\<rparr>)"
  shows "I s \<Longrightarrow> I (run M e cs s)"
proof (induction cs arbitrary: s)
  case Nil
  then show ?case by simp
next
  case (Cons c cs)
  from exec_preserves [of I M e, OF send add con Cons.prems]
  have "I (snd (exec M e c s))" .
  then show ?case by (simp add: Cons.IH)
qed

lemma size_inv_console: "size_inv s \<Longrightarrow> size_inv (s\<lparr>console := c\<rparr>)"
  by (simp add: size_inv_def)

lemma cap_inv_console: "cap_inv M s \<Longrightarrow> cap_inv M (s\<lparr>console := c\<rparr>)"
  by (simp add: cap_inv_def size_inv_def)

lemma stats_inv_console: "stats_inv s \<Longrightarrow> stats_inv (s\<lparr>console := c\<rparr>)"
  by (simp add: stats_inv_def)

lemma size_inv_init: "size_inv init"
  by (simp add: size_inv_def init_def)

lemma cap_inv_init: "cap_inv M init"
  by (simp add: cap_inv_def size_inv_def within_cap_def init_def)

lemma stats_inv_init: "stats_inv init"
  by (simp add: stats_inv_def init_def)

lemma cap_inv_run: "cap_inv M (run M e cs init)"
  by (rule run_preserves [of "cap_inv M", OF cap_inv_sendBatch cap_inv_addProduct cap_inv_console cap_inv_init])

section \<open>Calls that return\<close>

lemma emitted_console [simp]: "emitted (s\<lparr>console := c\<rparr>) = emitted s"
  by (simp add: emitted_def)

lemma sendBatch_Returned:
  assumes "sendBatch M e s = (Returned, s')"
  shows "emitted s' = emitted s" and "currentBatch s' = []"
  using assms by (auto simp: sendBatch_eq emitted_def split: if_splits)

lemma addProduct_Returned:
  assumes "addProduct M e p s = (Returned, s')"
  shows "emitted s' = emitted s @ [p]"
  using assms by (auto simp: addProduct_eq emitted_def split: if_splits)

lemma loop_Returned:
  "addProducts_loop M e t ps n s = (Returned, s') \<Longrightarrow> emitted s' = emitted s @ ps"
proof (induction ps arbitrary: n s)
  case Nil
  then show ?case by simp
next
  case (Cons p ps)
  obtain r s1 where eq: "addProduct M e p s = (r, s1)" by (cases "addProduct M e p s")
  show ?case
  proof (cases r)
    case Raised
    with eq Cons.prems show ?thesis by simp
  next
    case Returned
    with eq have s1: "emitted s1 = emitted s @ [p]" by (simp add: addProduct_Returned)
    from Cons.prems eq Returned
    obtain s2 where "addProducts_loop M e t ps (n + 1) s2 = (Returned, s')"
      and "emitted s2 = emitted s1"
      by (simp add: Let_def split: if_splits)
    with Cons.IH s1 show ?thesis by fastforce
  qed
qed

lemma addProducts_Returned:
  assumes "addProducts M e ps s = (Returned, s')"
  shows "emitted s' = emitted s @ ps"
proof -
  let ?s0 = "s\<lparr>console := console s @ [Processing (length ps)]\<rparr>"
  obtain r s1 where eq: "addProducts_loop M e (length ps) ps 0 ?s0 = (r, s1)"
    by (cases "addProducts_loop M e (length ps) ps 0 ?s0")
  from assms eq have r: "r = Returned" and s': "s' = s1\<lparr>console := console s1 @ [Completed (length ps)]\<rparr>"
    by (cases r; simp add: addProducts_def Let_def)+
  from eq r have "emitted s1 = emitted ?s0 @ ps" by (simp add: loop_Returned)
  with s' show ?thesis by simp
qed

lemma flush_Returned:
  assumes "flush M e s = (Returned, s')"
  shows "emitted s' = emitted s" and "currentBatch s' = []"
proof -
  obtain r s1 where eq: "sendBatch M e s = (r, s1)" by (cases "sendBatch M e s")
  from assms eq have r: "r = Returned" and s': "s' = printSummary M s1"
    by (cases r; simp add: flush_def)+
  from eq r have "emitted s1 = emitted s" "currentBatch s1 = []"
    by (simp_all add: sendBatch_Returned)
  with s' show "emitted s' = emitted s" and "currentBatch s' = []"
    by (simp_all add: printSummary_def)
qed

lemma exec_Returned:
  "exec M e c s = (Returned, s') \<Longrightarrow> emitted s' = emitted s @ added [c]"
  by (cases c) (simp_all add: addProduct_Returned addProducts_Returned flush_Returned)

lemma added_append: "added (cs @ ds) = added cs @ added ds"
  by (induction cs rule: added.induct) simp_all

lemma run_all_Returned:
  "run_all M e cs s = (Returned, s') \<Longrightarrow> emitted s' = emitted s @ added cs"
proof (induction cs arbitrary: s)
  case Nil
  then show ?case by simp
next
  case (Cons c cs)
  obtain r s1 where eq: "exec M e c s = (r, s1)" by (cases "exec M e c s")
  show ?case
  proof (cases r)
    case Raised
    with eq Cons.prems show ?thesis by simp
  next
    case Returned
    with eq have "emitted s1 = emitted s @ added [c]" by (simp add: exec_Returned)
    moreover from Cons.prems eq Returned have "emitted s' = emitted s1 @ added cs"
      by (simp add: Cons.IH)
    ultimately show ?thesis using added_append [of "[c]" cs] by simp
  qed
qed

lemma run_all_append:
  "run_all M e (cs @ ds) s =
     (case run_all M e cs s of (Raised, s') \<Rightarrow> (Raised, s') | (Returned, s') \<Rightarrow> run_all M e ds s')"
  by (induction cs arbitrary: s) (auto split: prod.splits outcome.splits)

lemma run_all_flush_last:
  assumes "run_all M e (cs @ [Flush]) s = (Returned, s')"
  shows "currentBatch s' = []"
proof -
  obtain r s1 where eq: "run_all M e cs s = (r, s1)" by (cases "run_all M e cs s")
  from assms eq have "flush M e s1 = (Returned, s')"
    by (cases r; cases "flush M e s1"; simp add: run_all_append split: outcome.splits)
  then show ?thesis by (rule flush_Returned)
qed

section \<open>Flushing, and callers that add nothing\<close>

lemma summary_console [simp]: "summary M (s\<lparr>console := c\<rparr>) = summary M s"
  by (simp add: summary_def)

lemma flush_eq:
  "flush M e s =
     (if currentBatch s = [] then (Returned, printSummary M s)
      else if e (map payload (calls s)) (payload (currentBatch s)) then (Raised, accounted M s)
      else (Returned, printSummary M ((accounted M s)\<lparr>currentBatch := [], currentBatchSize := 0\<rparr>)))"
  by (simp add: flush_def sendBatch_eq)

lemma addProducts_Nil:
  "addProducts M e [] s = (Returned, s\<lparr>console := console s @ [Processing 0, Completed 0]\<rparr>)"
  by (simp add: addProducts_def)

lemma run_no_products:
  "currentBatch s = [] \<Longrightarrow> added cs = [] \<Longrightarrow>
   calls (run M e cs s) = calls s \<and> currentBatch (run M e cs s) = []"
proof (induction cs arbitrary: s)
  case Nil
  then show ?case by simp
next
  case (Cons c cs)
  show ?case
  proof (cases c)
    case (AddProduct p)
    with Cons.prems show ?thesis by simp
  next
    case (AddProducts ps)
    with Cons.prems have "ps = []" and "added cs = []" by simp_all
    with Cons.prems(1) AddProducts Cons.IH [of "s\<lparr>console := console s @ [Processing 0, Completed 0]\<rparr>"]
    show ?thesis by (simp add: addProducts_Nil)
  next
    case Flush
    with Cons.prems have "added cs = []" by simp
    with Cons.prems(1) Flush Cons.IH [of "printSummary M s"]
    show ?thesis by (simp add: flush_eq printSummary_def)
  qed
qed

section \<open>The claims\<close>

text \<open>
  C1. Whatever calls a caller makes (\<^verbatim>\<open>addProduct\<close>, \<^verbatim>\<open>addProducts\<close>, \<^verbatim>\<open>flush\<close>, in
  any order, also after a call that raised), every batch handed to the service that holds
  more than one product has a serialised size of at most \<open>maxSizeBytes\<close> bytes.
\<close>

theorem batch_within_cap:
  "b \<in> set (calls (run M e cs init)) \<Longrightarrow> 1 < length b \<Longrightarrow>
   real (byteLength (payload b)) \<le> maxSizeBytes M"
  using cap_inv_run [of M e cs] by (simp add: cap_inv_def within_cap_def)

theorem batch_within_cap_witness:
  "[product1, product2] \<in> set (calls (run 5 reliable [AddProducts [product1, product2], Flush] init)) \<and>
   1 < length [product1, product2] \<and>
   real (byteLength (payload [product1, product2])) \<le> maxSizeBytes 5"
proof -
  have h: "[product1, product2] \<in>
      set (calls (run 5 reliable [AddProducts [product1, product2], Flush] init))"
    by code_simp
  have l: "1 < length [product1, product2]" by simp
  from batch_within_cap [OF h l] h l show ?thesis by simp
qed

text \<open>
  C2. When the calls that add the products and the final \<^verbatim>\<open>flush\<close> all return, the
  batches handed to the service, concatenated in the order of the calls, are the products
  that were added, in the order they were added; so the batch lengths add up to the number
  of products added.
\<close>

theorem order_preserved:
  assumes "run_all M e (cs @ [Flush]) init = (Returned, s)"
  shows "concat (calls s) = added cs \<and> sum_list (map length (calls s)) = length (added cs)"
proof -
  from assms have "emitted s = emitted init @ added (cs @ [Flush])" by (rule run_all_Returned)
  moreover from assms have "currentBatch s = []" by (rule run_all_flush_last)
  ultimately have "concat (calls s) = added cs"
    by (simp add: emitted_def init_def added_append)
  then show ?thesis by (metis length_concat)
qed

theorem order_preserved_witness:
  "fst (run_all 5 reliable ([AddProduct product1, AddProducts [product2]] @ [Flush]) init) = Returned \<and>
   concat (calls (snd (run_all 5 reliable ([AddProduct product1, AddProducts [product2]] @ [Flush]) init)))
     = added [AddProduct product1, AddProducts [product2]] \<and>
   sum_list (map length
       (calls (snd (run_all 5 reliable ([AddProduct product1, AddProducts [product2]] @ [Flush]) init))))
     = length (added [AddProduct product1, AddProducts [product2]])"
proof -
  let ?r = "run_all 5 reliable ([AddProduct product1, AddProducts [product2]] @ [Flush]) init"
  have f: "fst ?r = Returned" by code_simp
  then have h: "?r = (Returned, snd ?r)" by (simp add: prod_eq_iff)
  from order_preserved [OF h] f show ?thesis by simp
qed

text \<open>
  C9. The tracked size of the current batch is \<open>0\<close> when the batch is empty and the
  exact serialised size of the batch otherwise. This holds at the start and is kept by
  \<^verbatim>\<open>addProduct\<close>, \<^verbatim>\<open>addProducts\<close> and \<^verbatim>\<open>flush\<close>, whether they return or raise: the
  incremental estimate is exact.
\<close>

theorem size_invariant:
  "size_inv init \<and>
   (size_inv s \<longrightarrow>
      size_inv (snd (addProduct M e p s)) \<and>
      size_inv (snd (addProducts M e ps s)) \<and>
      size_inv (snd (flush M e s)))"
  using size_inv_init size_inv_addProduct
    addProducts_preserves [of size_inv M e s ps, OF size_inv_addProduct size_inv_console]
    flush_preserves [of size_inv M e s, OF size_inv_sendBatch size_inv_console]
  by blast

theorem size_invariant_witness:
  "size_inv pending1 \<and>
   size_inv (snd (addProduct 5 reliable product2 pending1)) \<and>
   size_inv (snd (addProducts 5 reliable [product2, product1] pending1)) \<and>
   size_inv (snd (flush 5 reliable pending1))"
proof -
  have h: "size_inv pending1" by code_simp
  with size_invariant [of pending1 5 reliable product2 "[product2, product1]"]
  show ?thesis by simp
qed

text \<open>
  C10. At the start and after every call, returned or raised: no more full batches than
  batches, no more bytes in full batches than bytes in all, and the count of products
  processed is the sum of the lengths of the batches handed to the service so far (the
  products of the batch in progress are not in it).
\<close>

theorem statistics_invariant:
  "stats_inv init \<and>
   (stats_inv s \<longrightarrow>
      stats_inv (snd (addProduct M e p s)) \<and>
      stats_inv (snd (addProducts M e ps s)) \<and>
      stats_inv (snd (flush M e s)))"
  using stats_inv_init stats_inv_addProduct
    addProducts_preserves [of stats_inv M e s ps, OF stats_inv_addProduct stats_inv_console]
    flush_preserves [of stats_inv M e s, OF stats_inv_sendBatch stats_inv_console]
  by blast

theorem statistics_invariant_witness:
  "stats_inv pending1 \<and>
   stats_inv (snd (addProduct 5 reliable product2 pending1)) \<and>
   stats_inv (snd (addProducts 5 reliable [product2, product1] pending1)) \<and>
   stats_inv (snd (flush 5 reliable pending1)) \<and>
   totalProductsProcessed pending1 = 0 \<and>
   totalProductsProcessed (snd (flush 5 reliable pending1)) = 1"
proof -
  have h: "stats_inv pending1" by code_simp
  have t: "totalProductsProcessed pending1 = 0"
    "totalProductsProcessed (snd (flush 5 reliable pending1)) = 1" by code_simp+
  from h t statistics_invariant [of pending1 5 reliable product2 "[product2, product1]"]
  show ?thesis by simp
qed

text \<open>
  C3 (as the code has it). When the call of the service raises while a batch is being
  sent, \<^verbatim>\<open>sendBatch\<close> raises, and so do \<^verbatim>\<open>flush\<close> (which prints no summary) and an
  \<^verbatim>\<open>addProduct\<close> that was sending the batch first (which does not place its product).
  The statistics already count the batch: products, batches, bytes and the full-batch
  figures. The batch itself is not reset: the current batch and its tracked size are what
  they were before the call, since the reset follows the call in \<^verbatim>\<open>sendBatch\<close>.
\<close>

theorem sink_failure:
  assumes "currentBatch s \<noteq> []"
      and "e (map payload (calls s)) (payload (currentBatch s))"
  shows "fst (sendBatch M e s) = Raised \<and>
         flush M e s = sendBatch M e s \<and>
         (overflows M p s \<longrightarrow> addProduct M e p s = sendBatch M e s) \<and>
         calls (snd (sendBatch M e s)) = calls s @ [currentBatch s] \<and>
         totalProductsProcessed (snd (sendBatch M e s)) =
           totalProductsProcessed s + length (currentBatch s) \<and>
         totalBatchesSent (snd (sendBatch M e s)) = totalBatchesSent s + 1 \<and>
         totalSizeProcessed (snd (sendBatch M e s)) =
           totalSizeProcessed s + byteLength (payload (currentBatch s)) \<and>
         fullBatchCount (snd (sendBatch M e s)) =
           fullBatchCount s +
             (if real (byteLength (payload (currentBatch s))) > double_times (maxSizeBytes M) (to_double 0.95) then 1 else 0) \<and>
         totalFullBatchesSize (snd (sendBatch M e s)) =
           totalFullBatchesSize s +
             (if real (byteLength (payload (currentBatch s))) > double_times (maxSizeBytes M) (to_double 0.95)
              then byteLength (payload (currentBatch s)) else 0) \<and>
         currentBatch (snd (sendBatch M e s)) = currentBatch s \<and>
         currentBatchSize (snd (sendBatch M e s)) = currentBatchSize s"
  using assms by (simp add: sendBatch_eq flush_eq addProduct_eq)

theorem sink_failure_witness:
  "currentBatch pending1 \<noteq> [] \<and>
   failing (map payload (calls pending1)) (payload (currentBatch pending1)) \<and>
   fst (flush 5 failing pending1) = Raised \<and>
   calls (snd (flush 5 failing pending1)) = [[product1]] \<and>
   totalProductsProcessed (snd (flush 5 failing pending1)) = 1 \<and>
   totalBatchesSent (snd (flush 5 failing pending1)) = 1 \<and>
   currentBatch (snd (flush 5 failing pending1)) = [product1]"
proof -
  have b: "currentBatch pending1 = [product1]" by code_simp
  then have n: "currentBatch pending1 \<noteq> []" by simp
  have f: "failing (map payload (calls pending1)) (payload (currentBatch pending1))"
    by (simp add: failing_def)
  have z: "calls pending1 = []" "totalProductsProcessed pending1 = 0"
    "totalBatchesSent pending1 = 0" by code_simp+
  from sink_failure [where s = pending1 and e = failing and M = 5 and p = product2, OF n f] b z n f show ?thesis by simp
qed

text \<open>
  The batch is still pending after a call that raised: one product is added, the service
  raises in \<^verbatim>\<open>flush\<close>, and the current batch is that product with its size of 62 bytes,
  not the empty batch.
\<close>

theorem sink_failure_counterexample:
  "fst (flush 5 failing (snd (addProduct 5 failing product1 init))) = Raised \<and>
   currentBatch (snd (flush 5 failing (snd (addProduct 5 failing product1 init)))) = [product1] \<and>
   currentBatchSize (snd (flush 5 failing (snd (addProduct 5 failing product1 init)))) = 62"
  by code_simp

text \<open>
  C4 (as the code has it). A product whose own text is larger than \<open>maxSizeBytes\<close> is,
  after an \<^verbatim>\<open>addProduct\<close> that returns, alone in the current batch; the next \<^verbatim>\<open>flush\<close> or
  \<^verbatim>\<open>addProduct\<close> hands exactly that one-product batch to the service, whole and over the
  cap. A batch handed to the service is over the cap only if it holds exactly one product
  and the text of that product plus the two brackets is larger than \<open>maxSizeBytes\<close>.
\<close>

theorem oversized_record:
  "(real (byteLength (JSON_stringify p)) > maxSizeBytes M \<and> addProduct M e p s = (Returned, s') \<longrightarrow>
      currentBatch s' = [p] \<and>
      real (byteLength (payload [p])) > maxSizeBytes M \<and>
      calls (snd (flush M e s')) = calls s' @ [[p]] \<and>
      calls (snd (addProduct M e q s')) = calls s' @ [[p]]) \<and>
   (b \<in> set (calls (run M e cs init)) \<and> real (byteLength (payload b)) > maxSizeBytes M \<longrightarrow>
      (\<exists>r. b = [r] \<and> real (byteLength (JSON_stringify r)) + 2 > maxSizeBytes M))"
proof -
  have first: "currentBatch s' = [p] \<and>
      real (byteLength (payload [p])) > maxSizeBytes M \<and>
      calls (snd (flush M e s')) = calls s' @ [[p]] \<and>
      calls (snd (addProduct M e q s')) = calls s' @ [[p]]"
    if big: "real (byteLength (JSON_stringify p)) > maxSizeBytes M"
      and ret: "addProduct M e p s = (Returned, s')"
  proof -
    have over: "real (byteLength (payload [p])) > maxSizeBytes M"
      using big by (simp add: payload_single)
    have alone: "currentBatch s' = [p] \<and> currentBatchSize s' = byteLength (payload [p])"
    proof (cases "overflows M p s")
      case True
      with ret show ?thesis by (auto simp: addProduct_eq split: if_splits)
    next
      case False
      with big have "currentBatch s = []"
        by (auto simp: overflows_def estimateProductSize_eq split: if_splits)
      with ret False show ?thesis by (auto simp: addProduct_eq appended_def)
    qed
    with over have "overflows M q s'"
      by (simp add: overflows_def estimateProductSize_eq)
    with alone over show ?thesis by (simp add: flush_eq addProduct_eq printSummary_def)
  qed
  have second: "\<exists>r. b = [r] \<and> real (byteLength (JSON_stringify r)) + 2 > maxSizeBytes M"
    if mem: "b \<in> set (calls (run M e cs init))"
      and over: "real (byteLength (payload b)) > maxSizeBytes M"
  proof -
    from mem cap_inv_run [of M e cs] have "b \<noteq> []" and "within_cap M b"
      by (simp_all add: cap_inv_def)
    with over have "length b = 1" by (cases b) (auto simp: within_cap_def)
    then obtain r where b: "b = [r]" by (cases b) auto
    with over have "real (byteLength (JSON_stringify r)) + 2 > maxSizeBytes M"
      by (simp add: payload_single)
    with b show ?thesis by blast
  qed
  from first second show ?thesis by blast
qed

theorem oversized_record_witness:
  "real (byteLength (JSON_stringify bulky)) > maxSizeBytes tight \<and>
   addProduct tight reliable bulky init = (Returned, snd (addProduct tight reliable bulky init)) \<and>
   currentBatch (snd (addProduct tight reliable bulky init)) = [bulky] \<and>
   calls (snd (flush tight reliable (snd (addProduct tight reliable bulky init)))) = [[bulky]] \<and>
   calls (snd (addProduct tight reliable snug (snd (addProduct tight reliable bulky init)))) = [[bulky]] \<and>
   [bulky] \<in> set (calls (run tight reliable [AddProduct bulky, Flush] init)) \<and>
   real (byteLength (payload [bulky])) > maxSizeBytes tight \<and>
   (\<exists>r. [bulky] = [r] \<and> real (byteLength (JSON_stringify r)) + 2 > maxSizeBytes tight)"
proof -
  let ?s' = "snd (addProduct tight reliable bulky init)"
  have big: "real (byteLength (JSON_stringify bulky)) > maxSizeBytes tight" by code_simp
  have "fst (addProduct tight reliable bulky init) = Returned" by code_simp
  then have ret: "addProduct tight reliable bulky init = (Returned, ?s')"
    by (simp add: prod_eq_iff)
  have mem: "[bulky] \<in> set (calls (run tight reliable [AddProduct bulky, Flush] init))"
    by code_simp
  have over: "real (byteLength (payload [bulky])) > maxSizeBytes tight" by code_simp
  have none: "calls ?s' = []" by code_simp
  from oversized_record [where p = bulky and M = tight and e = reliable and s = init and s' = ?s'
      and q = snug and b = "[bulky]" and cs = "[AddProduct bulky, Flush]"]
    big ret mem over none
  show ?thesis by simp
qed

text \<open>
  The brackets count: with a cap of ten bytes, a product whose text takes exactly ten
  bytes is not larger than the cap, and its batch of twelve bytes is handed over all the
  same.
\<close>

theorem oversized_counterexample:
  "real (byteLength (JSON_stringify snug)) \<le> maxSizeBytes tight \<and>
   calls (run tight reliable [AddProduct snug, Flush] init) = [[snug]] \<and>
   maxSizeBytes tight < real (byteLength (payload [snug]))"
  by code_simp

text \<open>
  C5. When \<^verbatim>\<open>addProduct\<close> appends (the batch does not overflow), the new tracked size is
  the byte length of the text of the whole new batch, serialised again, if the new length
  is at most 3 or a multiple of 100, and otherwise the old tracked size plus the byte
  length of the product's text plus one for the comma when the batch was not empty. This
  holds in every state, whatever the old tracked size is.
\<close>

theorem recalibration_policy:
  assumes "\<not> overflows M p s"
  shows "fst (addProduct M e p s) = Returned \<and>
         currentBatch (snd (addProduct M e p s)) = currentBatch s @ [p] \<and>
         currentBatchSize (snd (addProduct M e p s)) =
           (if length (currentBatch s @ [p]) \<le> 3 \<or> length (currentBatch s @ [p]) mod 100 = 0
            then byteLength (JSON_stringify (JArr (currentBatch s @ [p])))
            else currentBatchSize s +
                   (byteLength (JSON_stringify p) + (if currentBatch s = [] then 0 else 1)))"
  using assms
  by (simp add: addProduct_eq appended_def estimateProductSize_eq payload_def byteLength_def)

theorem recalibration_policy_witness:
  "\<not> overflows 5 product2 pending3 \<and>
   length (currentBatch (snd (addProduct 5 reliable product2 pending3))) = 4 \<and>
   currentBatchSize (snd (addProduct 5 reliable product2 pending3)) =
     currentBatchSize pending3 + (byteLength (JSON_stringify product2) + 1) \<and>
   \<not> overflows 5 product2 pending1 \<and>
   length (currentBatch (snd (addProduct 5 reliable product2 pending1))) = 2 \<and>
   currentBatchSize (snd (addProduct 5 reliable product2 pending1)) =
     byteLength (JSON_stringify (JArr [product1, product2])) \<and>
   byteLength (JSON_stringify (JArr [product1, product2])) = 123"
proof -
  have h3: "\<not> overflows 5 product2 pending3" by code_simp
  have h1: "\<not> overflows 5 product2 pending1" by code_simp
  have b3: "currentBatch pending3 = [product1, product2, product1]" by code_simp
  have b1: "currentBatch pending1 = [product1]" by code_simp
  have n: "byteLength (JSON_stringify (JArr [product1, product2])) = 123" by code_simp
  from recalibration_policy [OF h3, where e = reliable] recalibration_policy [OF h1, where e = reliable]
    h3 h1 b3 b1 n
  show ?thesis by simp
qed

text \<open>
  C6. The service is never called with an empty array: every batch handed over has a
  product, and its text is not \<^verbatim>\<open>[]\<close>. When the calls add no product at all, the
  service is never called.
\<close>

theorem no_empty_emission:
  "(b \<in> set (calls (run M e cs init)) \<longrightarrow> b \<noteq> [] \<and> payload b \<noteq> ''[]'') \<and>
   (added cs = [] \<longrightarrow> calls (run M e cs init) = [])"
proof -
  have "b \<noteq> [] \<and> payload b \<noteq> ''[]''" if "b \<in> set (calls (run M e cs init))"
  proof -
    from that cap_inv_run [of M e cs] have "b \<noteq> []" by (simp add: cap_inv_def)
    moreover from this have "2 < length (payload b)" by (rule payload_longer_than_brackets)
    ultimately show ?thesis by auto
  qed
  moreover have "calls (run M e cs init) = []" if "added cs = []"
    using run_no_products [of init cs M e] that by (simp add: init_def)
  ultimately show ?thesis by blast
qed

theorem no_empty_emission_witness:
  "[product1] \<in> set (calls (run 5 failing [AddProduct product1, Flush, Flush] init)) \<and>
   [product1] \<noteq> [] \<and> payload [product1] \<noteq> ''[]'' \<and>
   added [Flush, AddProducts [], Flush] = [] \<and>
   calls (run 5 failing [Flush, AddProducts [], Flush] init) = []"
proof -
  have h: "[product1] \<in> set (calls (run 5 failing [AddProduct product1, Flush, Flush] init))"
    by code_simp
  have a: "added [Flush, AddProducts [], Flush] = []" by simp
  from no_empty_emission [of "[product1]" 5 failing "[AddProduct product1, Flush, Flush]"] h
  have "[product1] \<noteq> [] \<and> payload [product1] \<noteq> ''[]''" by blast
  moreover from no_empty_emission [of "[]" 5 failing "[Flush, AddProducts [], Flush]"] a
  have "calls (run 5 failing [Flush, AddProducts [], Flush] init) = []" by blast
  ultimately show ?thesis using h a by blast
qed

text \<open>
  C7 (as the code has it). After a \<^verbatim>\<open>flush\<close> that returned, the batcher is empty, and a second \<^verbatim>\<open>flush\<close>
  right after it returns too, calls the service no more, changes nothing but the console,
  and prints the summary that the first one printed. The two together call the service
  at most once.
\<close>

theorem flush_idempotent:
  assumes "flush M e s = (Returned, s1)"
  shows "currentBatch s1 = [] \<and>
         flush M e s1 = (Returned, s1\<lparr>console := console s1 @ summary M s1\<rparr>) \<and>
         calls (snd (flush M e s1)) = calls s1 \<and>
         summary M (snd (flush M e s1)) = summary M s1 \<and>
         (\<exists>before. console s1 = before @ summary M s1) \<and>
         length (calls (snd (flush M e s1))) \<le> length (calls s) + 1"
proof -
  from assms have empty: "currentBatch s1 = []"
    by (auto simp: flush_eq printSummary_def split: if_splits)
  then have again: "flush M e s1 = (Returned, s1\<lparr>console := console s1 @ summary M s1\<rparr>)"
    by (simp add: flush_eq printSummary_def)
  from assms have printed: "\<exists>before. console s1 = before @ summary M s1"
    by (auto simp: flush_eq printSummary_def split: if_splits)
  from assms have "length (calls s1) \<le> length (calls s) + 1"
    by (auto simp: flush_eq printSummary_def split: if_splits)
  with empty again printed show ?thesis by simp
qed

theorem flush_idempotent_witness:
  "fst (flush 5 reliable pending1) = Returned \<and>
   fst (flush 5 reliable (snd (flush 5 reliable pending1))) = Returned \<and>
   calls (snd (flush 5 reliable (snd (flush 5 reliable pending1)))) = [[product1]] \<and>
   calls (snd (flush 5 reliable pending1)) = [[product1]]"
proof -
  let ?s1 = "snd (flush 5 reliable pending1)"
  have f: "fst (flush 5 reliable pending1) = Returned" by code_simp
  then have h: "flush 5 reliable pending1 = (Returned, ?s1)" by (simp add: prod_eq_iff)
  have c: "calls ?s1 = [[product1]]" by code_simp
  from flush_idempotent [OF h] f c show ?thesis by simp
qed


text \<open>
  Without the first \<^verbatim>\<open>flush\<close> returning, the second one does call the service: with a
  service that raises at its first call, one product added and two calls of \<^verbatim>\<open>flush\<close>
  hand the same batch to the service twice.
\<close>

theorem flush_twice_counterexample:
  "calls (run 5 once [AddProduct product1] init) = [] \<and>
   calls (run 5 once [AddProduct product1, Flush] init) = [[product1]] \<and>
   calls (run 5 once [AddProduct product1, Flush, Flush] init) = [[product1], [product1]]"
  by code_simp




end
